theory Spec2Isabelle
  imports Complex_Main "HOL-Library.Multiset"
begin

section \<open>The sweep probability of War: embedding of \<open>war.ipynb\<close>\<close>

text \<open>
  The notebook computes the probability that player A wins every turn of the card game War in
  two ways: by brute force over all orderings of a concrete deck (\<open>p_sweeps\<close> over
  \<open>permutations (make_deck r s)\<close>), and by an incremental computation over abstract decks
  (\<open>p_sweep (make_abdeck r s)\<close>).  Python's floats are embedded as exact rationals, so
  rounding and float overflow are not modelled; Python's unbounded integers are \<open>int\<close>, tuples
  and lists are lists, and the exceptions the code raises on such data (a read past the end of
  a deck, a division by zero, the mean of no value) are values of type \<open>error\<close>.
\<close>

subsection \<open>Errors\<close>

datatype error = IndexError | ZeroDivisionError | StatisticsError

subsection \<open>Brute force enumeration\<close>

type_synonym Deck = "int list"

text \<open>\<^verbatim>\<open>[r + 1 for r in range(ranks) for _ in range(suits)]\<close>; a range of a non-positive
  bound is empty.\<close>

definition make_deck :: "int \<Rightarrow> int \<Rightarrow> Deck" where
  "make_deck ranks suits =
     concat (map (\<lambda>r. replicate (nat suits) (int r + 1)) [0..<nat ranks])"

text \<open>\<^verbatim>\<open>all(deck[i] > deck[i + 1] for i in range(0, len(deck), 2))\<close>: \<open>all\<close> stops at the
  first false comparison; reading \<open>deck[i + 1]\<close> past the end raises IndexError.\<close>

fun sweep :: "Deck \<Rightarrow> error + bool" where
  "sweep [] = Inr True"
| "sweep [a] = Inl IndexError"
| "sweep (a # b # rest) = (if a > b then sweep rest else Inr False)"

text \<open>The generator \<open>sweep(deck) for deck in decks\<close>, consumed by \<open>statistics.mean\<close>: the
  first exception propagates.\<close>

fun sweeps :: "Deck list \<Rightarrow> error + bool list" where
  "sweeps [] = Inr []"
| "sweeps (d # ds) =
     (case sweep d of
        Inl e \<Rightarrow> Inl e
      | Inr b \<Rightarrow> (case sweeps ds of Inl e \<Rightarrow> Inl e | Inr bs \<Rightarrow> Inr (b # bs)))"

text \<open>\<open>mean\<close> of booleans is the number of \<open>True\<close> values over the number of values; the mean
  of no value raises StatisticsError.\<close>

definition p_sweeps :: "Deck list \<Rightarrow> error + rat" where
  "p_sweeps decks =
     (case sweeps decks of
        Inl e \<Rightarrow> Inl e
      | Inr bs \<Rightarrow>
          if bs = [] then Inl StatisticsError
          else Inr (of_nat (length (filter (\<lambda>b. b) bs)) / of_nat (length bs)))"

text \<open>\<open>itertools.permutations\<close>: every ordering of the positions of the input, elements being
  distinguished by position and not by value, in lexicographic order of the positions.\<close>

function permutations :: "'a list \<Rightarrow> 'a list list" where
  "permutations xs =
     (if xs = [] then [] # []
      else concat (map (\<lambda>i. map ((#) (xs ! i)) (permutations (take i xs @ drop (Suc i) xs)))
                       [0..<length xs]))"
  by pat_completeness auto
termination
  by (relation "measure length") auto

declare permutations.simps [simp del]

subsection \<open>Abstract decks and probability distributions\<close>

type_synonym AbDeck = "int list"

text \<open>\<^verbatim>\<open>AbDeck([suits] * ranks)\<close>; a list repeated a non-positive number of times is empty.\<close>

definition make_abdeck :: "int \<Rightarrow> int \<Rightarrow> AbDeck" where
  "make_abdeck ranks suits = replicate (nat ranks) suits"

text \<open>A \<open>PDist\<close> is a \<open>Counter\<close>: a dictionary in insertion order, here an association list
  with one entry for each key.\<close>

type_synonym PDist = "(AbDeck \<times> rat) list"

text \<open>\<^verbatim>\<open>P1[k] += v\<close>: a missing key of a \<open>Counter\<close> reads as 0 and is inserted at the end.\<close>

fun increment :: "PDist \<Rightarrow> AbDeck \<Rightarrow> rat \<Rightarrow> PDist" where
  "increment [] k v = [(k, 0 + v)]"
| "increment ((k', p) # rest) k v =
     (if k' = k then (k', p + v) # rest else (k', p) # increment rest k v)"

text \<open>\<^verbatim>\<open>sum(P.values())\<close>\<close>

definition total :: "PDist \<Rightarrow> rat" where
  "total P = sum_list (map snd P)"

text \<open>\<^verbatim>\<open>P[deck]\<close> of a \<open>Counter\<close>: 0 for a missing key.\<close>

definition mass :: "PDist \<Rightarrow> AbDeck \<Rightarrow> rat" where
  "mass P k = (case map_of P k of None \<Rightarrow> 0 | Some p \<Rightarrow> p)"

text \<open>\<^verbatim>\<open>counts = [c - indexes.count(i) for i, c in enumerate(deck)]\<close>, then
  \<^verbatim>\<open>AbDeck(sorted(c for c in counts if c > 0))\<close>.\<close>

definition remove :: "AbDeck \<Rightarrow> nat list \<Rightarrow> AbDeck" where
  "remove deck indexes =
     sort (filter (\<lambda>c. c > 0)
       (map (\<lambda>(i, c). c - int (count_list indexes i)) (enumerate 0 deck)))"

text \<open>\<^verbatim>\<open>combinations(range(n), 2)\<close>: the pairs \<open>(i, j)\<close> with \<open>i < j < n\<close>, in lexicographic
  order.\<close>

definition combinations2 :: "nat \<Rightarrow> (nat \<times> nat) list" where
  "combinations2 n = concat (map (\<lambda>i. map (\<lambda>j. (i, j)) [Suc i..<n]) [0..<n])"

text \<open>The inner loop of \<open>play_turn\<close> for one deck of probability \<open>p\<close>:
  \<^verbatim>\<open>P1[remove(deck, i, j)] += P[deck] * deck[i] / n * deck[j] / (n - 1)\<close>.
  Division by \<open>n = 0\<close> or by \<open>n - 1 = 0\<close> raises ZeroDivisionError.\<close>

fun play_pairs :: "rat \<Rightarrow> AbDeck \<Rightarrow> (nat \<times> nat) list \<Rightarrow> PDist \<Rightarrow> error + PDist" where
  "play_pairs p deck [] P1 = Inr P1"
| "play_pairs p deck ((i, j) # ps) P1 =
     (let n = sum_list deck in
      if n = 0 \<or> n - 1 = 0 then Inl ZeroDivisionError
      else play_pairs p deck ps
             (increment P1 (remove deck [i, j])
                (p * of_int (deck ! i) / of_int n * of_int (deck ! j) / of_int (n - 1))))"

text \<open>The outer loop of \<open>play_turn\<close> over the entries of \<open>P\<close>.\<close>

fun play_decks :: "PDist \<Rightarrow> PDist \<Rightarrow> error + PDist" where
  "play_decks [] P1 = Inr P1"
| "play_decks ((deck, p) # rest) P1 =
     (case play_pairs p deck (combinations2 (length deck)) P1 of
        Inl e \<Rightarrow> Inl e
      | Inr P1' \<Rightarrow> play_decks rest P1')"

definition play_turn :: "PDist \<Rightarrow> error + PDist" where
  "play_turn P = play_decks P []"

text \<open>\<^verbatim>\<open>for turn in range(k): P = play_turn(P)\<close>\<close>

fun turns :: "nat \<Rightarrow> PDist \<Rightarrow> error + PDist" where
  "turns 0 P = Inr P"
| "turns (Suc k) P = (case play_turn P of Inl e \<Rightarrow> Inl e | Inr P' \<Rightarrow> turns k P')"

text \<open>\<open>p_sweep\<close>: \<open>sum(deck) // 2\<close> turns from \<open>{deck: 1.0}\<close>; \<open>//\<close> is floor division and a
  range of a negative bound is empty.\<close>

definition p_sweep :: "AbDeck \<Rightarrow> error + rat" where
  "p_sweep deck =
     (case turns (nat (sum_list deck div 2)) [(deck, 1)] of
        Inl e \<Rightarrow> Inl e
      | Inr P \<Rightarrow> Inr (total P))"

text \<open>The invariant of a state: every count is at least 1 and the counts are ascending.\<close>

definition canonical :: "AbDeck \<Rightarrow> bool" where
  "canonical d \<longleftrightarrow> (\<forall>c \<in> set d. 1 \<le> c) \<and> sorted d"

subsection \<open>The computation without its error branches\<close>

text \<open>The weight of the pair \<open>(i, j)\<close> in \<open>play_turn\<close>, for a deck of probability 1.\<close>

definition pair_weight :: "AbDeck \<Rightarrow> nat \<Rightarrow> nat \<Rightarrow> rat" where
  "pair_weight deck i j =
     of_int (deck ! i) / of_int (sum_list deck) * of_int (deck ! j) / of_int (sum_list deck - 1)"

text \<open>The two loops of \<open>play_turn\<close> where no division fails.\<close>

fun pairs_pure :: "rat \<Rightarrow> AbDeck \<Rightarrow> (nat \<times> nat) list \<Rightarrow> PDist \<Rightarrow> PDist" where
  "pairs_pure p deck [] P1 = P1"
| "pairs_pure p deck ((i, j) # ps) P1 =
     pairs_pure p deck ps (increment P1 (remove deck [i, j]) (p * pair_weight deck i j))"

fun decks_pure :: "PDist \<Rightarrow> PDist \<Rightarrow> PDist" where
  "decks_pure [] P1 = P1"
| "decks_pure ((deck, p) # rest) P1 =
     decks_pure rest (pairs_pure p deck (combinations2 (length deck)) P1)"

text \<open>The sum of the masses of a distribution, each weighted by a function of its state.\<close>

definition wsum :: "(AbDeck \<Rightarrow> rat) \<Rightarrow> PDist \<Rightarrow> rat" where
  "wsum f P = (\<Sum>(d, p) \<leftarrow> P. p * f d)"

text \<open>The expectation of \<open>f\<close> after one turn from a deck.\<close>

definition turn_sum :: "(AbDeck \<Rightarrow> rat) \<Rightarrow> AbDeck \<Rightarrow> rat" where
  "turn_sum f deck =
     (\<Sum>(i, j) \<leftarrow> combinations2 (length deck). pair_weight deck i j * f (remove deck [i, j]))"

text \<open>The probability that A wins the next \<open>k\<close> turns from a deck.\<close>

primrec vsweep :: "nat \<Rightarrow> AbDeck \<Rightarrow> rat" where
  "vsweep 0 deck = 1"
| "vsweep (Suc k) deck = turn_sum (vsweep k) deck"

text \<open>The sum of \<open>\<phi> x y\<close> over the pairs of a list, each pair of positions taken once.\<close>

fun psum :: "('a \<Rightarrow> 'a \<Rightarrow> 'b::comm_monoid_add) \<Rightarrow> 'a list \<Rightarrow> 'b" where
  "psum \<phi> [] = 0"
| "psum \<phi> (x # xs) = (\<Sum>y \<leftarrow> xs. \<phi> x y) + psum \<phi> xs"

subsection \<open>The abstraction of a concrete deck\<close>

text \<open>\<open>sweep\<close> on a deck of even length, where it cannot fail.\<close>

fun sweepb :: "Deck \<Rightarrow> bool" where
  "sweepb (a # b # rest) = (a > b \<and> sweepb rest)"
| "sweepb [a] = False"
| "sweepb [] = True"

text \<open>The number of orderings of a deck that A sweeps.\<close>

definition wins :: "Deck \<Rightarrow> rat" where
  "wins deck = (\<Sum>d \<leftarrow> permutations deck. if sweepb d then 1 else 0)"

text \<open>The abstract deck of a multiset of cards: the number of cards of each rank present,
  in ascending order.\<close>

definition absM :: "int multiset \<Rightarrow> AbDeck" where
  "absM M = sorted_list_of_multiset (image_mset (\<lambda>x. int (count M x)) (mset_set (set_mset M)))"

text \<open>The state after taking one card from a rank of \<open>x\<close> cards and one from another rank of
  \<open>y\<close> cards, in a state whose multiset of counts is \<open>N\<close>.\<close>

definition succ_state :: "int multiset \<Rightarrow> int \<Rightarrow> int \<Rightarrow> AbDeck" where
  "succ_state N x y =
     sorted_list_of_multiset
       (filter_mset (\<lambda>c. 0 < c) (add_mset (x - 1) (add_mset (y - 1) (N - {#x, y#}))))"

subsection \<open>The turn transition as the specification words it\<close>

text \<open>The pairs of positions \<open>(i, j)\<close> with \<open>i < j\<close>, each once.\<close>

definition spec_pairs :: "nat \<Rightarrow> (nat \<times> nat) list" where
  "spec_pairs n = filter (\<lambda>(i, j). i < j) (List.product [0..<n] [0..<n])"

text \<open>The mass of the state \<open>k\<close> after one turn: for each entry \<open>(state, m)\<close> of \<open>P\<close>, with
  \<open>n\<close> the sum of the state's entries, and each pair \<open>i < j\<close> whose successor state is \<open>k\<close>, the
  mass \<open>m \<times> state[i]/n \<times> state[j]/(n - 1)\<close>; nothing else.\<close>

definition spec_play_turn :: "PDist \<Rightarrow> AbDeck \<Rightarrow> rat" where
  "spec_play_turn P k =
     (\<Sum>(state, m) \<leftarrow> P. \<Sum>(i, j) \<leftarrow> spec_pairs (length state).
        if remove state [i, j] = k
        then m * (of_int (state ! i) / of_int (sum_list state))
               * (of_int (state ! j) / of_int (sum_list state - 1))
        else 0)"

section \<open>Properties\<close>

subsection \<open>Removing cards from an abstract deck\<close>

lemma remove_counts_pair:
  assumes "i < length d" "j < length d" "i \<noteq> j"
  shows "map (\<lambda>(k, c). c - int (count_list [i, j] k)) (enumerate 0 d)
         = d[i := d ! i - 1, j := d ! j - 1]"
  using assms by (intro nth_equalityI) (auto simp: nth_enumerate_eq nth_list_update)

lemma remove_counts_twice:
  assumes "i < length d"
  shows "map (\<lambda>(k, c). c - int (count_list [i, i] k)) (enumerate 0 d) = d[i := d ! i - 2]"
  using assms by (intro nth_equalityI) (auto simp: nth_enumerate_eq nth_list_update)

lemma canonical_remove: "canonical (remove d ixs)"
  by (auto simp: canonical_def remove_def)

lemma set_combinations2: "set (combinations2 n) = {(i, j). i < j \<and> j < n}"
  by (fastforce simp: combinations2_def)

lemma pair_subset_mset:
  "i < length d \<Longrightarrow> j < length d \<Longrightarrow> i \<noteq> j \<Longrightarrow> {#d ! i, d ! j#} \<subseteq># mset d"
proof (induction d arbitrary: i j)
  case Nil
  then show ?case by simp
next
  case (Cons x xs)
  show ?case
  proof (cases i)
    case 0
    then obtain j' where "j = Suc j'" using Cons.prems by (cases j) auto
    then show ?thesis using 0 Cons.prems by (simp add: insert_subset_eq_iff)
  next
    case (Suc i')
    show ?thesis
    proof (cases j)
      case 0
      then show ?thesis using Suc Cons.prems by (simp add: add_mset_commute insert_subset_eq_iff)
    next
      case (Suc j')
      have "{#xs ! i', xs ! j'#} \<subseteq># mset xs"
        using Cons.IH[of i' j'] Cons.prems \<open>i = Suc i'\<close> Suc by simp
      also have "mset xs \<subseteq># mset (x # xs)" by simp
      finally show ?thesis using \<open>i = Suc i'\<close> Suc by simp
    qed
  qed
qed

lemma mset_update2:
  assumes "i < length d" "j < length d" "i \<noteq> j"
  shows "mset (d[i := a, j := b]) = add_mset a (add_mset b (mset d - {#d ! i, d ! j#}))"
proof -
  have sub: "{#d ! i, d ! j#} \<subseteq># mset d"
    using assms by (rule pair_subset_mset)
  then have mem: "d ! j \<in># mset d - {#d ! i#}"
    by (simp add: insert_subset_eq_iff)
  have "mset (d[i := a, j := b]) = add_mset b (mset (d[i := a]) - {#d ! j#})"
    using assms by (simp add: mset_update)
  also have "mset (d[i := a]) = add_mset a (mset d - {#d ! i#})"
    using assms by (simp add: mset_update)
  finally show ?thesis using mem by (simp add: add_mset_commute)
qed

lemma remove_pair_eq:
  assumes "i < length d" "j < length d" "i \<noteq> j"
  shows "remove d [i, j] = sort (filter (\<lambda>c. c > 0) (d[i := d ! i - 1, j := d ! j - 1]))"
  unfolding remove_def remove_counts_pair[OF assms] ..

lemma mset_remove_pair:
  assumes "i < length d" "j < length d" "i \<noteq> j"
  shows "mset (remove d [i, j]) =
     filter_mset (\<lambda>c. c > 0) (add_mset (d ! i - 1) (add_mset (d ! j - 1) (mset d - {#d ! i, d ! j#})))"
  unfolding remove_pair_eq[OF assms] using mset_update2[OF assms] by simp

text \<open>
  Claim C3.  For a canonical state and positions \<open>i < j\<close> of its count sequence,
  \<open>remove state [i, j]\<close> is the state with the counts at \<open>i\<close> and at \<open>j\<close> each decremented
  by 1, the non-positive entries dropped and the rest sorted ascending: the canonical form of the
  multiset of counts with one card taken from each of the two ranks.
\<close>

theorem remove_pair:
  assumes "canonical state" "i < j" "j < length state"
  shows "remove state [i, j] =
           sort (filter (\<lambda>c. c > 0) (state[i := state ! i - 1, j := state ! j - 1]))
       \<and> canonical (remove state [i, j])
       \<and> mset (remove state [i, j]) =
           filter_mset (\<lambda>c. c > 0)
             (add_mset (state ! i - 1) (add_mset (state ! j - 1)
                (mset state - {#state ! i, state ! j#})))"
proof -
  have ij: "i < length state" "j < length state" "i \<noteq> j"
    using assms by auto
  show ?thesis
    by (intro conjI remove_pair_eq[OF ij] mset_remove_pair[OF ij] canonical_remove)
qed

text \<open>Witness for C3 at the state \<open>(1, 2, 2)\<close> and the positions 0 and 2.\<close>

theorem remove_pair_witness:
  "remove [1, 2, 2] [0, 2] = [1, 2] \<and> canonical (remove [1, 2, 2] [0, 2])"
proof -
  have c: "canonical [1, 2, 2]" by (simp add: canonical_def)
  show ?thesis using remove_pair[OF c, of 0 2] by (simp add: canonical_def)
qed

text \<open>
  Claim C10.  \<open>remove\<close> has no failing branch: with the same position given twice it returns
  the canonical state with that count decremented by 2 (dropped when the result is not positive).
  \<open>play_turn\<close> never asks for it, since \<open>combinations2\<close> yields only pairs \<open>i < j\<close>.
\<close>

theorem remove_repeated_index:
  "(i < length state \<longrightarrow>
      remove state [i, i] = sort (filter (\<lambda>c. c > 0) (state[i := state ! i - 2]))
      \<and> canonical (remove state [i, i]))
   \<and> (\<forall>(a, b) \<in> set (combinations2 (length state)). a < b \<and> b < length state)"
  using remove_counts_twice[of i state] canonical_remove[of state "[i, i]"]
  by (auto simp: remove_def set_combinations2)

text \<open>Witness for C10 at the states \<open>(1, 2, 3)\<close> and \<open>(1, 1, 3)\<close>.\<close>

theorem remove_repeated_index_witness:
  "remove [1, 2, 3] [1, 1] = [1, 3] \<and> remove [1, 1, 3] [2, 2] = [1, 1, 1]
   \<and> list_all (\<lambda>(a, b). a < b \<and> b < 3) (combinations2 3)"
  using remove_repeated_index[of 1 "[1, 2, 3]"] remove_repeated_index[of 2 "[1, 1, 3]"]
  by (simp add: numeral_3_eq_3 list_all_iff)

subsection \<open>Distributions\<close>

lemma wsum_increment: "wsum f (increment P k v) = wsum f P + v * f k"
  by (induction P) (auto simp: wsum_def algebra_simps)

lemma total_wsum: "total P = wsum (\<lambda>_. 1) P"
  by (induction P) (auto simp: total_def wsum_def)

lemma map_fst_increment:
  "map fst (increment P k v) = (if k \<in> set (map fst P) then map fst P else map fst P @ [k])"
  by (induction P) force+

lemma keys_increment: "fst ` set (increment P k v) = insert k (fst ` set P)"
  using arg_cong[OF map_fst_increment[of P k v], of set] by (auto split: if_splits)

lemma distinct_increment:
  "distinct (map fst P) \<Longrightarrow> distinct (map fst (increment P k v))"
  by (simp add: map_fst_increment)

lemma mass_wsum:
  "distinct (map fst P) \<Longrightarrow> mass P k = wsum (\<lambda>d. if d = k then 1 else 0) P"
proof (induction P)
  case Nil
  then show ?case by (simp add: mass_def wsum_def)
next
  case (Cons a P)
  obtain k' p where a: "a = (k', p)" by (cases a)
  show ?case
  proof (cases "k' = k")
    case True
    then have "k \<notin> fst ` set P" using Cons.prems a by auto
    then have "wsum (\<lambda>d. if d = k then 1 else 0) P = 0"
      unfolding wsum_def by (induction P) auto
    then show ?thesis using True a by (simp add: mass_def wsum_def)
  next
    case False
    then show ?thesis using Cons a by (simp add: mass_def wsum_def)
  qed
qed

lemma nonneg_increment:
  "\<forall>(d, p) \<in> set P. 0 \<le> p \<Longrightarrow> 0 \<le> v \<Longrightarrow> \<forall>(d, p) \<in> set (increment P k v). 0 \<le> p"
  by (induction P) (auto split: if_splits)

subsection \<open>One turn without division by zero\<close>

lemma wsum_pairs_pure:
  "wsum f (pairs_pure p d ps P1) =
     wsum f P1 + p * (\<Sum>(i, j) \<leftarrow> ps. pair_weight d i j * f (remove d [i, j]))"
  by (induction p d ps P1 rule: pairs_pure.induct) (auto simp: wsum_increment algebra_simps)

lemma keys_pairs_pure:
  "fst ` set (pairs_pure p d ps P1) = fst ` set P1 \<union> (\<lambda>(i, j). remove d [i, j]) ` set ps"
  by (induction p d ps P1 rule: pairs_pure.induct) (auto simp: keys_increment)

lemma distinct_pairs_pure:
  "distinct (map fst P1) \<Longrightarrow> distinct (map fst (pairs_pure p d ps P1))"
  by (induction p d ps P1 rule: pairs_pure.induct) (auto simp: distinct_increment)

lemma wsum_decks_pure:
  "wsum f (decks_pure P P1) = wsum f P1 + (\<Sum>(d, p) \<leftarrow> P. p * turn_sum f d)"
  by (induction P P1 rule: decks_pure.induct) (auto simp: wsum_pairs_pure turn_sum_def)

lemma keys_decks_pure:
  "fst ` set (decks_pure P P1) =
     fst ` set P1 \<union> (\<Union>(d, p) \<in> set P. (\<lambda>(i, j). remove d [i, j]) ` set (combinations2 (length d)))"
  by (induction P P1 rule: decks_pure.induct) (auto simp: keys_pairs_pure)

lemma distinct_decks_pure:
  "distinct (map fst P1) \<Longrightarrow> distinct (map fst (decks_pure P P1))"
  by (induction P P1 rule: decks_pure.induct) (auto simp: distinct_pairs_pure)

lemma contribution_eq:
  "p * of_int (d ! i) / of_int (sum_list d) * of_int (d ! j) / of_int (sum_list d - 1)
   = p * pair_weight d i j"
  by (simp add: pair_weight_def)

lemma play_pairs_pure:
  assumes "ps = [] \<or> (sum_list d \<noteq> 0 \<and> sum_list d \<noteq> 1)"
  shows "play_pairs p d ps P1 = Inr (pairs_pure p d ps P1)"
  using assms
proof (induction p d ps P1 rule: pairs_pure.induct)
  case (1 p deck P1)
  show ?case by simp
next
  case (2 p deck i j ps P1)
  then have n: "sum_list deck \<noteq> 0" "sum_list deck - 1 \<noteq> 0" by auto
  have "play_pairs p deck ((i, j) # ps) P1 =
      play_pairs p deck ps (increment P1 (remove deck [i, j]) (p * pair_weight deck i j))"
    unfolding play_pairs.simps Let_def contribution_eq using n by simp
  also have "\<dots> = Inr (pairs_pure p deck ps
      (increment P1 (remove deck [i, j]) (p * pair_weight deck i j)))"
    using 2 by auto
  finally show ?case by simp
qed

lemma canonical_sum_ge_length: "canonical d \<Longrightarrow> int (length d) \<le> sum_list d"
proof (induction d)
  case Nil
  then show ?case by simp
next
  case (Cons a d)
  then have "canonical d" "1 \<le> a" by (auto simp: canonical_def)
  then show ?case using Cons.IH by simp
qed

lemma combinations2_Nil: "n < 2 \<Longrightarrow> combinations2 n = []"
  by (auto simp: combinations2_def)

lemma canonical_play_pairs:
  assumes "canonical d"
  shows "play_pairs p d (combinations2 (length d)) P1
         = Inr (pairs_pure p d (combinations2 (length d)) P1)"
proof (rule play_pairs_pure)
  show "combinations2 (length d) = [] \<or> (sum_list d \<noteq> 0 \<and> sum_list d \<noteq> 1)"
    using canonical_sum_ge_length[OF assms] combinations2_Nil[of "length d"] by linarith
qed

lemma canonical_play_decks:
  "\<forall>d \<in> fst ` set P. canonical d \<Longrightarrow> play_decks P P1 = Inr (decks_pure P P1)"
  by (induction P P1 rule: decks_pure.induct) (auto simp: canonical_play_pairs)

lemma canonical_play_turn:
  "\<forall>d \<in> fst ` set P. canonical d \<Longrightarrow> play_turn P = Inr (decks_pure P [])"
  by (simp add: play_turn_def canonical_play_decks)

subsection \<open>Sums over pairs of positions\<close>

lemma combinations2_Suc:
  "combinations2 (Suc n) =
     map (Pair 0) (map Suc [0..<n]) @ map (\<lambda>(i, j). (Suc i, Suc j)) (combinations2 n)"
proof -
  have "combinations2 (Suc n) =
      map (Pair 0) [Suc 0..<Suc n]
      @ concat (map (\<lambda>i. map (Pair i) [Suc i..<Suc n]) (map Suc [0..<n]))"
    unfolding combinations2_def by (simp add: upt_conv_Cons map_Suc_upt del: upt_Suc)
  also have "concat (map (\<lambda>i. map (Pair i) [Suc i..<Suc n]) (map Suc [0..<n]))
      = concat (map (\<lambda>i. map (\<lambda>(i, j). (Suc i, Suc j)) (map (Pair i) [Suc i..<n])) [0..<n])"
    by (simp add: map_Suc_upt[symmetric] o_def del: upt_Suc)
  also have "\<dots> = map (\<lambda>(i, j). (Suc i, Suc j)) (combinations2 n)"
    unfolding combinations2_def by (simp add: map_concat o_def)
  finally show ?thesis by (simp add: map_Suc_upt)
qed

lemma sum_list_nth: "(\<Sum>j \<leftarrow> [0..<length xs]. f (xs ! j)) = (\<Sum>y \<leftarrow> xs. f y)"
proof -
  have "map f xs = map f (map ((!) xs) [0..<length xs])"
    by (simp only: map_nth)
  then show ?thesis by (simp add: o_def)
qed

lemma sum_combinations2:
  "(\<Sum>(i, j) \<leftarrow> combinations2 (length xs). \<phi> (xs ! i) (xs ! j)) = psum \<phi> xs"
proof (induction xs)
  case Nil
  then show ?case by (simp add: combinations2_def)
next
  case (Cons x xs)
  have "(\<Sum>(i, j) \<leftarrow> combinations2 (length (x # xs)). \<phi> ((x # xs) ! i) ((x # xs) ! j))
      = (\<Sum>j \<leftarrow> [0..<length xs]. \<phi> x (xs ! j))
        + (\<Sum>(i, j) \<leftarrow> combinations2 (length xs). \<phi> (xs ! i) (xs ! j))"
    by (simp add: combinations2_Suc o_def case_prod_unfold del: upt_Suc)
  then show ?case using Cons.IH by (simp add: sum_list_nth)
qed

lemma psum_double:
  fixes \<phi> :: "'a \<Rightarrow> 'a \<Rightarrow> 'b::comm_monoid_add"
  assumes "\<And>x y. \<phi> x y = \<phi> y x"
  shows "psum \<phi> xs + psum \<phi> xs + (\<Sum>x \<leftarrow> xs. \<phi> x x) = (\<Sum>x \<leftarrow> xs. \<Sum>y \<leftarrow> xs. \<phi> x y)"
proof (induction xs)
  case Nil
  then show ?case by simp
next
  case (Cons a xs)
  have sym: "(\<Sum>x \<leftarrow> xs. \<phi> x a) = (\<Sum>y \<leftarrow> xs. \<phi> a y)"
    using assms by simp
  have "(\<Sum>x \<leftarrow> a # xs. \<Sum>y \<leftarrow> a # xs. \<phi> x y)
      = \<phi> a a + (\<Sum>y \<leftarrow> xs. \<phi> a y) + ((\<Sum>y \<leftarrow> xs. \<phi> a y) + (\<Sum>x \<leftarrow> xs. \<Sum>y \<leftarrow> xs. \<phi> x y))"
    by (simp add: sum_list_addf sym)
  also have "(\<Sum>x \<leftarrow> xs. \<Sum>y \<leftarrow> xs. \<phi> x y) = psum \<phi> xs + psum \<phi> xs + (\<Sum>x \<leftarrow> xs. \<phi> x x)"
    using Cons.IH by simp
  finally show ?case by (simp add: ac_simps)
qed

lemma psum_mset:
  fixes \<phi> :: "'a \<Rightarrow> 'a \<Rightarrow> rat"
  assumes "\<And>x y. \<phi> x y = \<phi> y x"
  shows "psum \<phi> xs =
    ((\<Sum>x \<in># mset xs. \<Sum>y \<in># mset xs. \<phi> x y) - (\<Sum>x \<in># mset xs. \<phi> x x)) / 2"
proof -
  have "(\<Sum>x \<in># mset xs. \<Sum>y \<in># mset xs. \<phi> x y) = (\<Sum>x \<leftarrow> xs. \<Sum>y \<leftarrow> xs. \<phi> x y)"
    by (simp add: sum_mset_sum_list[symmetric])
  moreover have "(\<Sum>x \<in># mset xs. \<phi> x x) = (\<Sum>x \<leftarrow> xs. \<phi> x x)"
    by (simp add: sum_mset_sum_list[symmetric])
  ultimately show ?thesis using psum_double[of \<phi> xs, OF assms] by simp
qed

subsection \<open>The mass kept by one turn\<close>

lemma canonical_nth: "canonical d \<Longrightarrow> i < length d \<Longrightarrow> 1 \<le> d ! i"
  by (simp add: canonical_def)

lemma pair_weight_nonneg:
  assumes "canonical d" "i < j" "j < length d"
  shows "0 \<le> pair_weight d i j"
proof -
  have "2 \<le> sum_list d" using canonical_sum_ge_length[OF assms(1)] assms by linarith
  moreover have "1 \<le> d ! i" "1 \<le> d ! j" using assms by (auto intro: canonical_nth)
  ultimately show ?thesis by (simp add: pair_weight_def)
qed

lemma sum_list_scaled:
  fixes a c :: rat
  shows "(\<Sum>y \<leftarrow> d. a * of_int y / c) = a * of_int (sum_list d) / c"
  by (induction d) (simp_all add: distrib_left add_divide_distrib)

lemma sum_list_squares_ge:
  fixes d :: "int list"
  shows "sum_list d \<le> (\<Sum>x \<leftarrow> d. x * x)"
proof (induction d)
  case Nil
  then show ?case by simp
next
  case (Cons a d)
  have "a \<le> a * a" by (cases "a \<le> 0") (auto simp: mult_le_cancel_left1 intro: order_trans[of a 0])
  with Cons show ?case by simp
qed

lemma psum_weight:
  assumes "canonical d" "2 \<le> length d"
  shows "psum (\<lambda>x y. of_int x * of_int y / (of_int (sum_list d) * of_int (sum_list d - 1)) :: rat) d
         \<le> 1 / 2"
proof -
  define n where "n = sum_list d"
  define c :: rat where "c = of_int n * of_int (n - 1)"
  define \<phi> :: "int \<Rightarrow> int \<Rightarrow> rat" where "\<phi> = (\<lambda>x y. of_int x * of_int y / c)"
  have n2: "2 \<le> n" using canonical_sum_ge_length[OF assms(1)] assms(2) by (simp add: n_def)
  then have cpos: "0 < c" by (simp add: c_def)
  have sym: "\<And>x y. \<phi> x y = \<phi> y x" by (simp add: \<phi>_def mult.commute)
  have inner: "\<And>x. (\<Sum>y \<leftarrow> d. \<phi> x y) = of_int n * of_int x / c"
    unfolding \<phi>_def sum_list_scaled n_def by (simp add: mult.commute)
  have dbl: "(\<Sum>x \<leftarrow> d. \<Sum>y \<leftarrow> d. \<phi> x y) = of_int n * of_int n / c"
    unfolding inner sum_list_scaled by (simp add: n_def)
  have diag: "(\<Sum>x \<leftarrow> d. \<phi> x x) = of_int (\<Sum>x \<leftarrow> d. x * x) / c"
    unfolding \<phi>_def by (induction d) (simp_all add: add_divide_distrib)
  have "of_int n / c \<le> (\<Sum>x \<leftarrow> d. \<phi> x x)"
    unfolding diag using sum_list_squares_ge[of d] cpos
    by (simp add: divide_le_cancel n_def)
  moreover have "psum \<phi> d + psum \<phi> d + (\<Sum>x \<leftarrow> d. \<phi> x x) = of_int n * of_int n / c"
    using psum_double[of \<phi> d, OF sym] dbl by simp
  ultimately have "2 * psum \<phi> d \<le> of_int n * of_int n / c - of_int n / c"
    by linarith
  also have "\<dots> = c / c"
    unfolding diff_divide_distrib[symmetric] by (simp add: c_def algebra_simps)
  also have "\<dots> = 1"
    using cpos by simp
  finally show ?thesis unfolding \<phi>_def c_def n_def by simp
qed

lemma turn_sum_one:
  "turn_sum (\<lambda>_. 1) d =
   psum (\<lambda>x y. of_int x * of_int y / (of_int (sum_list d) * of_int (sum_list d - 1))) d"
  using sum_combinations2
    [of "\<lambda>x y. of_int x * of_int y / (of_int (sum_list d) * of_int (sum_list d - 1)) :: rat" d]
  by (simp add: turn_sum_def pair_weight_def)

lemma turn_sum_one_le:
  assumes "canonical d"
  shows "turn_sum (\<lambda>_. 1) d \<le> 1 / 2"
proof (cases "2 \<le> length d")
  case True
  then show ?thesis unfolding turn_sum_one by (rule psum_weight[OF assms])
next
  case False
  then show ?thesis by (simp add: turn_sum_def combinations2_Nil)
qed

lemma turn_sum_nonneg:
  assumes "canonical d" "\<And>k. canonical k \<Longrightarrow> 0 \<le> f k"
  shows "0 \<le> turn_sum f d"
  unfolding turn_sum_def
  by (rule sum_list_nonneg)
     (auto simp: set_combinations2 intro!: mult_nonneg_nonneg pair_weight_nonneg assms canonical_remove)

lemma turn_sum_mono:
  assumes "canonical d" "\<And>k. canonical k \<Longrightarrow> f k \<le> g k"
  shows "turn_sum f d \<le> turn_sum g d"
  unfolding turn_sum_def
  by (rule sum_list_mono)
     (auto simp: set_combinations2 intro!: mult_left_mono pair_weight_nonneg assms canonical_remove)

subsection \<open>Iterated turns\<close>

lemma canonical_keys_decks_pure:
  "\<forall>d \<in> fst ` set P1. canonical d \<Longrightarrow> \<forall>d \<in> fst ` set (decks_pure P P1). canonical d"
  unfolding keys_decks_pure by (auto simp: canonical_remove)

lemma nonneg_pairs_pure:
  assumes "canonical d" "0 \<le> p"
  shows "\<forall>(i, j) \<in> set ps. i < j \<and> j < length d \<Longrightarrow> \<forall>(k, q) \<in> set P1. 0 \<le> q
    \<Longrightarrow> \<forall>(k, q) \<in> set (pairs_pure p d ps P1). 0 \<le> q"
proof (induction ps arbitrary: P1)
  case Nil
  then show ?case by simp
next
  case (Cons ij ps)
  obtain i j where ij: "ij = (i, j)" by (cases ij)
  have "0 \<le> p * pair_weight d i j"
    using Cons.prems(1) assms ij by (auto intro!: mult_nonneg_nonneg pair_weight_nonneg)
  with Cons.prems(2)
  have "\<forall>(k, q) \<in> set (increment P1 (remove d [i, j]) (p * pair_weight d i j)). 0 \<le> q"
    by (rule nonneg_increment)
  then show ?case using Cons ij by simp
qed

lemma nonneg_decks_pure:
  assumes "\<forall>(d, p) \<in> set P. canonical d \<and> 0 \<le> p" "\<forall>(k, q) \<in> set P1. 0 \<le> q"
  shows "\<forall>(k, q) \<in> set (decks_pure P P1). 0 \<le> q"
  using assms
proof (induction P P1 rule: decks_pure.induct)
  case (1 P1)
  then show ?case by simp
next
  case (2 deck p rest P1)
  have "\<forall>(k, q) \<in> set (pairs_pure p deck (combinations2 (length deck)) P1). 0 \<le> q"
    using 2 by (intro nonneg_pairs_pure) (auto simp: set_combinations2)
  then show ?case using 2 by simp
qed

lemma wsum_nonneg_le:
  assumes "\<forall>(d, p) \<in> set P. canonical d \<and> 0 \<le> p" "\<And>k. canonical k \<Longrightarrow> f k \<le> g k"
  shows "wsum f P \<le> wsum g P"
  unfolding wsum_def using assms
  by (intro sum_list_mono) (auto intro!: mult_left_mono)

lemma wsum_scale: "wsum (\<lambda>d. c * f d) P = c * wsum f P"
  unfolding wsum_def by (induction P) (auto simp: algebra_simps)

lemma total_play_turn_wsum:
  "total (decks_pure P []) = wsum (turn_sum (\<lambda>_. 1)) P"
  unfolding total_wsum wsum_decks_pure by (simp add: wsum_def)

lemma total_play_turn_half:
  assumes "\<forall>(d, p) \<in> set P. canonical d \<and> 0 \<le> p"
  shows "2 * total (decks_pure P []) \<le> total P"
proof -
  have "wsum (turn_sum (\<lambda>_. 1)) P \<le> wsum (\<lambda>_. 1 / 2) P"
    using assms by (rule wsum_nonneg_le) (rule turn_sum_one_le)
  also have "\<dots> = 1 / 2 * wsum (\<lambda>_. 1) P"
    using wsum_scale[of "1 / 2" "\<lambda>_. 1" P] by simp
  finally show ?thesis unfolding total_play_turn_wsum by (simp add: total_wsum)
qed

lemma total_nonneg: "\<forall>(d, p) \<in> set P. 0 \<le> p \<Longrightarrow> 0 \<le> total P"
  unfolding total_def by (rule sum_list_nonneg) auto

lemma turns_canonical:
  assumes "\<forall>d \<in> fst ` set P. canonical d"
  shows "\<exists>P'. turns k P = Inr P' \<and> (\<forall>d \<in> fst ` set P'. canonical d)
           \<and> total P' = wsum (vsweep k) P
           \<and> ((\<forall>(d, p) \<in> set P. 0 \<le> p) \<longrightarrow> (\<forall>(d, p) \<in> set P'. 0 \<le> p))"
  using assms
proof (induction k arbitrary: P)
  case 0
  then show ?case by (simp add: total_wsum)
next
  case (Suc k)
  let ?Q = "decks_pure P []"
  have step: "play_turn P = Inr ?Q" using Suc.prems by (rule canonical_play_turn)
  have canQ: "\<forall>d \<in> fst ` set ?Q. canonical d"
    by (rule canonical_keys_decks_pure) simp
  from Suc.IH[OF canQ] obtain P' where P': "turns k ?Q = Inr P'"
    "\<forall>d \<in> fst ` set P'. canonical d" "total P' = wsum (vsweep k) ?Q"
    "(\<forall>(d, p) \<in> set ?Q. 0 \<le> p) \<longrightarrow> (\<forall>(d, p) \<in> set P'. 0 \<le> p)"
    by blast
  have eq: "wsum (vsweep k) ?Q = wsum (vsweep (Suc k)) P"
    unfolding wsum_decks_pure by (simp add: wsum_def)
  have nn: "(\<forall>(d, p) \<in> set P. 0 \<le> p) \<longrightarrow> (\<forall>(d, p) \<in> set ?Q. 0 \<le> p)"
  proof
    assume "\<forall>(d, p) \<in> set P. 0 \<le> p"
    then have "\<forall>(d, p) \<in> set P. canonical d \<and> 0 \<le> p"
      using Suc.prems by force
    then show "\<forall>(d, p) \<in> set ?Q. 0 \<le> p"
      by (rule nonneg_decks_pure) simp
  qed
  have "turns (Suc k) P = Inr P'"
    using step P'(1) by simp
  moreover have "total P' = wsum (vsweep (Suc k)) P"
    using P'(3) eq by (simp only:)
  moreover have "(\<forall>(d, p) \<in> set P. 0 \<le> p) \<longrightarrow> (\<forall>(d, p) \<in> set P'. 0 \<le> p)"
    using nn P'(4) by blast
  ultimately show ?case using P'(2) by blast
qed

lemma vsweep_bounds: "canonical d \<Longrightarrow> 0 \<le> vsweep k d \<and> vsweep k d \<le> 1"
proof (induction k arbitrary: d)
  case 0
  then show ?case by simp
next
  case (Suc k)
  have "0 \<le> turn_sum (vsweep k) d"
    using Suc by (intro turn_sum_nonneg) auto
  moreover have "turn_sum (vsweep k) d \<le> turn_sum (\<lambda>_. 1) d"
    using Suc by (intro turn_sum_mono) auto
  moreover have "turn_sum (\<lambda>_. 1) d \<le> 1 / 2"
    using Suc.prems by (rule turn_sum_one_le)
  ultimately show ?case by simp
qed

lemma p_sweep_vsweep:
  assumes "canonical d"
  shows "p_sweep d = Inr (vsweep (nat (sum_list d div 2)) d)"
proof -
  obtain P' where "turns (nat (sum_list d div 2)) [(d, 1)] = Inr P'"
    "total P' = wsum (vsweep (nat (sum_list d div 2))) [(d, 1)]"
    using turns_canonical[of "[(d, 1)]" "nat (sum_list d div 2)"] assms by auto
  then show ?thesis by (simp add: p_sweep_def wsum_def)
qed

lemma turns_Suc_right:
  "turns (Suc k) P = (case turns k P of Inl e \<Rightarrow> Inl e | Inr P' \<Rightarrow> play_turn P')"
proof (induction k arbitrary: P)
  case 0
  then show ?case by (simp split: sum.splits)
next
  case (Suc k)
  show ?case
  proof (cases "play_turn P")
    case (Inl e)
    then show ?thesis by simp
  next
    case (Inr Q)
    have "turns (Suc (Suc k)) P = turns (Suc k) Q"
      using Inr by simp
    also have "\<dots> = (case turns k Q of Inl e \<Rightarrow> Inl e | Inr P' \<Rightarrow> play_turn P')"
      by (rule Suc.IH)
    also have "turns k Q = turns (Suc k) P"
      using Inr by simp
    finally show ?thesis .
  qed
qed

subsection \<open>The turn transition\<close>

lemma filter_less_upt: "filter (\<lambda>j. i < j) [0..<n] = [Suc i..<n]"
  by (induction n) auto

lemma spec_pairs_eq: "spec_pairs n = combinations2 n"
proof -
  have "\<And>i. filter (\<lambda>(i, j). i < j) (map (Pair i) [0..<n]) = map (Pair i) [Suc i..<n]"
    by (simp add: filter_map o_def filter_less_upt)
  then show ?thesis
    unfolding spec_pairs_def combinations2_def
    by (simp add: product_concat_map filter_concat o_def)
qed

lemma spec_play_turn_wsum:
  "spec_play_turn P k = (\<Sum>(d, p) \<leftarrow> P. p * turn_sum (\<lambda>d'. if d' = k then 1 else 0) d)"
proof -
  have "\<And>d p. (\<Sum>(i, j) \<leftarrow> combinations2 (length d).
        if remove d [i, j] = k
        then p * (of_int (d ! i) / of_int (sum_list d)) * (of_int (d ! j) / of_int (sum_list d - 1))
        else 0)
      = p * turn_sum (\<lambda>d'. if d' = k then 1 else 0) d"
    unfolding turn_sum_def sum_list_const_mult[symmetric]
    by (rule arg_cong[where f = sum_list]) (auto simp: pair_weight_def)
  then show ?thesis
    unfolding spec_play_turn_def spec_pairs_eq by simp
qed

subsection \<open>The turn transition and the sweep driver\<close>

text \<open>
  Claim C2.  For a distribution \<open>P\<close> (its keys are states), \<open>play_turn P\<close> returns the
  distribution whose mass at each state \<open>k\<close> is the sum, over the entries \<open>(state, m)\<close> of \<open>P\<close>
  and the pairs \<open>i < j\<close> with \<open>remove state [i, j] = k\<close>, of
  \<open>m \<times> state[i]/n \<times> state[j]/(n - 1)\<close>; its keys are exactly the successor states, each once.
\<close>

theorem play_turn_refines_spec:
  assumes "\<forall>d \<in> fst ` set P. canonical d"
  shows "\<exists>P'. play_turn P = Inr P' \<and> distinct (map fst P')
           \<and> (\<forall>k. mass P' k = spec_play_turn P k)
           \<and> fst ` set P' =
               {remove d [i, j] | d i j. d \<in> fst ` set P \<and> i < j \<and> j < length d}"
proof -
  let ?Q = "decks_pure P []"
  have 1: "play_turn P = Inr ?Q" using assms by (rule canonical_play_turn)
  have 2: "distinct (map fst ?Q)" by (rule distinct_decks_pure) simp
  have 3: "mass ?Q k = spec_play_turn P k" for k
    unfolding mass_wsum[OF 2] wsum_decks_pure spec_play_turn_wsum by (simp add: wsum_def)
  have 4: "fst ` set ?Q = {remove d [i, j] | d i j. d \<in> fst ` set P \<and> i < j \<and> j < length d}"
    unfolding keys_decks_pure set_combinations2 by force
  show ?thesis using 1 2 3 4 by blast
qed

text \<open>Witness for C2 at the distribution \<open>{(1, 1, 2): 1}\<close>.\<close>

theorem play_turn_refines_spec_witness:
  "\<exists>P'. play_turn [([1, 1, 2], 1)] = Inr P' \<and> distinct (map fst P')
       \<and> (\<forall>k. mass P' k = spec_play_turn [([1, 1, 2], 1)] k)
       \<and> fst ` set P' =
           {remove d [i, j] | d i j. d \<in> fst ` set [([1, 1, 2], 1 :: rat)] \<and> i < j \<and> j < length d}"
  by (rule play_turn_refines_spec) (simp add: canonical_def)

text \<open>
  Claim C4.  The initial state of positive arguments is canonical, every key of every
  distribution reached from it by iterated \<open>play_turn\<close> is canonical, \<open>play_turn\<close> maps
  distributions over canonical states to such distributions, and \<open>remove\<close> returns canonical
  states only.
\<close>

theorem canonical_invariant:
  "(0 < ranks \<and> 0 < suits \<longrightarrow>
      canonical (make_abdeck ranks suits)
      \<and> (\<exists>P. turns t [(make_abdeck ranks suits, 1)] = Inr P \<and> (\<forall>d \<in> fst ` set P. canonical d)))
   \<and> ((\<forall>d \<in> fst ` set P. canonical d) \<longrightarrow>
        (\<exists>P'. play_turn P = Inr P' \<and> (\<forall>d \<in> fst ` set P'. canonical d)))
   \<and> canonical (remove deck indexes)"
proof (intro conjI impI)
  assume "0 < ranks \<and> 0 < suits"
  then show c: "canonical (make_abdeck ranks suits)"
    by (simp add: make_abdeck_def canonical_def)
  show "\<exists>P. turns t [(make_abdeck ranks suits, 1)] = Inr P \<and> (\<forall>d \<in> fst ` set P. canonical d)"
    using turns_canonical[of "[(make_abdeck ranks suits, 1)]" t] c by auto
next
  assume "\<forall>d \<in> fst ` set P. canonical d"
  then have "play_turn P = Inr (decks_pure P [])" by (rule canonical_play_turn)
  moreover have "\<forall>d \<in> fst ` set (decks_pure P []). canonical d"
    by (rule canonical_keys_decks_pure) simp
  ultimately show "\<exists>P'. play_turn P = Inr P' \<and> (\<forall>d \<in> fst ` set P'. canonical d)"
    by blast
next
  show "canonical (remove deck indexes)" by (rule canonical_remove)
qed

text \<open>Witness for C4 at the deck of 2 ranks and 2 suits, after one turn.\<close>

theorem canonical_invariant_witness:
  "canonical (make_abdeck 2 2)
   \<and> (\<exists>P. turns 1 [(make_abdeck 2 2, 1)] = Inr P \<and> (\<forall>d \<in> fst ` set P. canonical d))
   \<and> (\<exists>P'. play_turn [([2, 2], 1)] = Inr P' \<and> (\<forall>d \<in> fst ` set P'. canonical d))"
  using canonical_invariant[of 2 2 1 "[([2, 2], 1)]"]
  by (simp add: canonical_def)

text \<open>
  Claim C5.  For a distribution \<open>P\<close> with non-negative masses, the total mass of
  \<open>play_turn P\<close> is at most that of \<open>P\<close>; hence the totals of the successive distributions
  inside \<open>p_sweep\<close> do not increase.
\<close>

theorem mass_loss:
  "((\<forall>(d, p) \<in> set P. canonical d \<and> 0 \<le> p) \<longrightarrow>
      (\<exists>P'. play_turn P = Inr P' \<and> total P' \<le> total P))
   \<and> (canonical deck \<longrightarrow>
        (\<exists>Pt Pt'. turns t [(deck, 1)] = Inr Pt \<and> turns (Suc t) [(deck, 1)] = Inr Pt'
           \<and> total Pt' \<le> total Pt))"
proof -
  have step: "\<exists>P'. play_turn P = Inr P' \<and> total P' \<le> total P"
    if P: "\<forall>(d, p) \<in> set P. canonical d \<and> 0 \<le> p" for P
  proof -
    have "\<forall>d \<in> fst ` set P. canonical d" using P by force
    then have "play_turn P = Inr (decks_pure P [])" by (rule canonical_play_turn)
    moreover have "2 * total (decks_pure P []) \<le> total P"
      using P by (rule total_play_turn_half)
    moreover have "0 \<le> total (decks_pure P [])"
      by (rule total_nonneg, rule nonneg_decks_pure[OF P]) simp
    ultimately show ?thesis by (intro exI[of _ "decks_pure P []"]) simp
  qed
  have seq: "\<exists>Pt Pt'. turns t [(deck, 1)] = Inr Pt \<and> turns (Suc t) [(deck, 1)] = Inr Pt'
           \<and> total Pt' \<le> total Pt" if c: "canonical deck"
  proof -
    obtain Pt where Pt: "turns t [(deck, 1)] = Inr Pt" "\<forall>d \<in> fst ` set Pt. canonical d"
      "\<forall>(d, p) \<in> set Pt. 0 \<le> p"
      using turns_canonical[of "[(deck, 1)]" t] c by auto
    then have "\<forall>(d, p) \<in> set Pt. canonical d \<and> 0 \<le> p" by force
    from step[OF this] obtain Pt' where "play_turn Pt = Inr Pt'" "total Pt' \<le> total Pt"
      by blast
    then show ?thesis using Pt(1) by (auto simp: turns_Suc_right simp del: turns.simps)
  qed
  show ?thesis using step seq by blast
qed

text \<open>Witness for C5 at the distribution \<open>{(1, 1, 2): 1}\<close> and the deck \<open>(2, 2)\<close>.\<close>

theorem mass_loss_witness:
  "(\<exists>P'. play_turn [([1, 1, 2], 1)] = Inr P' \<and> total P' \<le> total [([1, 1, 2], 1)])
   \<and> (\<exists>Pt Pt'. turns 1 [([2, 2], 1)] = Inr Pt \<and> turns (Suc 1) [([2, 2], 1)] = Inr Pt'
           \<and> total Pt' \<le> total Pt)"
  using mass_loss[of "[([1, 1, 2], 1)]" "[2, 2]" 1]
  by (simp add: canonical_def del: turns.simps)

text \<open>
  Claim C6.  For a valid configuration (at least one rank, at least one suit, an even number
  of cards), \<open>p_sweep (make_abdeck ranks suits)\<close> returns a value between 0 and 1.
\<close>

theorem p_sweep_bounds:
  assumes "1 \<le> ranks" "1 \<le> suits" "even (ranks * suits)"
  shows "\<exists>p. p_sweep (make_abdeck ranks suits) = Inr p \<and> 0 \<le> p \<and> p \<le> 1"
proof -
  have c: "canonical (make_abdeck ranks suits)"
    using assms by (simp add: make_abdeck_def canonical_def)
  show ?thesis
    unfolding p_sweep_vsweep[OF c] using vsweep_bounds[OF c] by simp
qed

text \<open>Witness for C6 at 2 ranks and 2 suits.\<close>

theorem p_sweep_bounds_witness:
  "\<exists>p. p_sweep (make_abdeck 2 2) = Inr p \<and> 0 \<le> p \<and> p \<le> 1"
  by (rule p_sweep_bounds) simp_all

subsection \<open>Brute force: counting the sweeping orderings\<close>

lemma sum_list_map_cong:
  "(\<And>x. x \<in> set xs \<Longrightarrow> f x = g x) \<Longrightarrow> sum_list (map f xs) = sum_list (map g xs)"
  by (rule arg_cong[where f = sum_list]) simp

lemma sum_list_map_concat:
  fixes f :: "'a \<Rightarrow> 'b::comm_monoid_add"
  shows "sum_list (map f (concat xss)) = (\<Sum>xs \<leftarrow> xss. sum_list (map f xs))"
  by (induction xss) auto

lemma length_permutations_elem: "p \<in> set (permutations xs) \<Longrightarrow> length p = length xs"
proof (induction xs arbitrary: p rule: permutations.induct)
  case (1 xs)
  show ?case
  proof (cases "xs = []")
    case True
    then show ?thesis using "1.prems" by (simp add: permutations.simps)
  next
    case False
    from "1.prems" False obtain i q where i: "i < length xs"
      and q: "q \<in> set (permutations (take i xs @ drop (Suc i) xs))" and p: "p = xs ! i # q"
      by (subst (asm) permutations.simps) auto
    have "length q = length (take i xs @ drop (Suc i) xs)"
      using "1.IH"[OF False _ q] i by simp
    then show ?thesis using p i by simp
  qed
qed

lemma length_permutations: "length (permutations xs) = fact (length xs)"
proof (induction xs rule: permutations.induct)
  case (1 xs)
  show ?case
  proof (cases "xs = []")
    case True
    then show ?thesis by (simp add: permutations.simps)
  next
    case False
    then obtain n where n: "length xs = Suc n" by (cases xs) auto
    have "length (permutations xs) =
        (\<Sum>i \<leftarrow> [0..<length xs]. length (permutations (take i xs @ drop (Suc i) xs)))"
      using False by (subst permutations.simps) (simp add: length_concat o_def)
    also have "\<dots> = (\<Sum>i \<leftarrow> [0..<length xs]. fact n)"
    proof (rule sum_list_map_cong)
      fix i assume i: "i \<in> set [0..<length xs]"
      then have "length (take i xs @ drop (Suc i) xs) = n" using n by auto
      then show "length (permutations (take i xs @ drop (Suc i) xs)) = fact n"
        using "1.IH"[OF False i] by simp
    qed
    also have "\<dots> = fact (length xs)"
      by (simp add: sum_list_triv n del: upt_Suc)
    finally show ?thesis .
  qed
qed

lemma permutations_nonempty: "permutations xs \<noteq> []"
  using length_permutations[of xs] by (metis fact_nonzero list.size(3))

lemma sweep_even: "even (length d) \<Longrightarrow> sweep d = Inr (sweepb d)"
  by (induction d rule: sweep.induct) auto

lemma sweeps_even: "\<forall>d \<in> set ds. even (length d) \<Longrightarrow> sweeps ds = Inr (map sweepb ds)"
  by (induction ds) (auto simp: sweep_even)

lemma count_true:
  "of_nat (length (filter P xs)) = (\<Sum>x \<leftarrow> xs. if P x then 1 else 0 :: rat)"
  by (induction xs) auto

lemma p_sweeps_wins:
  assumes "even (length deck)"
  shows "p_sweeps (permutations deck) = Inr (wins deck / of_nat (fact (length deck)))"
proof -
  have "\<forall>d \<in> set (permutations deck). even (length d)"
    using assms by (simp add: length_permutations_elem)
  then have "sweeps (permutations deck) = Inr (map sweepb (permutations deck))"
    by (rule sweeps_even)
  then show ?thesis
    unfolding p_sweeps_def wins_def
    by (simp add: permutations_nonempty count_true length_permutations filter_map o_def)
qed

lemma sum_permutations:
  fixes g :: "'a list \<Rightarrow> rat"
  assumes "xs \<noteq> []"
  shows "(\<Sum>d \<leftarrow> permutations xs. g d) =
    (\<Sum>i \<leftarrow> [0..<length xs]. \<Sum>q \<leftarrow> permutations (take i xs @ drop (Suc i) xs). g (xs ! i # q))"
  using assms by (subst permutations.simps) (simp add: sum_list_map_concat o_def)

lemma wins_rec:
  assumes "2 \<le> length xs"
  shows "wins xs =
    (\<Sum>i \<leftarrow> [0..<length xs]. \<Sum>j \<leftarrow> [0..<length xs - 1].
       if xs ! i > (take i xs @ drop (Suc i) xs) ! j
       then wins (take j (take i xs @ drop (Suc i) xs) @ drop (Suc j) (take i xs @ drop (Suc i) xs))
       else 0)"
proof -
  have ne: "xs \<noteq> []" using assms by auto
  have "wins xs = (\<Sum>i \<leftarrow> [0..<length xs].
      \<Sum>q \<leftarrow> permutations (take i xs @ drop (Suc i) xs). if sweepb (xs ! i # q) then 1 else 0)"
    unfolding wins_def by (rule sum_permutations[OF ne])
  also have "\<dots> = (\<Sum>i \<leftarrow> [0..<length xs]. \<Sum>j \<leftarrow> [0..<length xs - 1].
       if xs ! i > (take i xs @ drop (Suc i) xs) ! j
       then wins (take j (take i xs @ drop (Suc i) xs) @ drop (Suc j) (take i xs @ drop (Suc i) xs))
       else 0)"
  proof (rule sum_list_map_cong)
    fix i assume "i \<in> set [0..<length xs]"
    then have i: "i < length xs" by simp
    define ys where "ys = take i xs @ drop (Suc i) xs"
    have len: "length ys = length xs - 1" using i by (auto simp: ys_def)
    then have ne': "ys \<noteq> []" using assms by auto
    have "(\<Sum>q \<leftarrow> permutations ys. if sweepb (xs ! i # q) then 1 else 0 :: rat)
        = (\<Sum>j \<leftarrow> [0..<length ys]. \<Sum>q \<leftarrow> permutations (take j ys @ drop (Suc j) ys).
             if sweepb (xs ! i # ys ! j # q) then 1 else 0)"
      by (rule sum_permutations[OF ne'])
    also have "\<dots> = (\<Sum>j \<leftarrow> [0..<length ys].
        if xs ! i > ys ! j then wins (take j ys @ drop (Suc j) ys) else 0)"
      by (rule sum_list_map_cong) (simp add: wins_def)
    finally show "(\<Sum>q \<leftarrow> permutations (take i xs @ drop (Suc i) xs).
          if sweepb (xs ! i # q) then 1 else 0 :: rat)
        = (\<Sum>j \<leftarrow> [0..<length xs - 1].
          if xs ! i > (take i xs @ drop (Suc i) xs) ! j
          then wins (take j (take i xs @ drop (Suc i) xs) @ drop (Suc j) (take i xs @ drop (Suc i) xs))
          else 0)"
      unfolding ys_def[symmetric] len .
  qed
  finally show ?thesis .
qed

subsection \<open>From positions to multisets\<close>

lemma mset_del_nth:
  assumes "i < length xs"
  shows "mset (take i xs @ drop (Suc i) xs) = mset xs - {#xs ! i#}"
proof -
  have "mset xs = mset (take i xs @ xs ! i # drop (Suc i) xs)"
    using id_take_nth_drop[OF assms] by simp
  then show ?thesis by simp
qed

lemma sum_del_nth:
  fixes F :: "'a \<Rightarrow> 'a multiset \<Rightarrow> rat"
  shows "(\<Sum>i \<leftarrow> [0..<length xs]. F (xs ! i) (mset (take i xs @ drop (Suc i) xs)))
       = (\<Sum>x \<in># mset xs. F x (mset xs - {#x#}))"
proof -
  have "(\<Sum>i \<leftarrow> [0..<length xs]. F (xs ! i) (mset (take i xs @ drop (Suc i) xs)))
      = (\<Sum>i \<leftarrow> [0..<length xs]. F (xs ! i) (mset xs - {#xs ! i#}))"
    by (rule sum_list_map_cong) (simp only: mset_del_nth set_upt atLeastLessThan_iff)
  also have "\<dots> = (\<Sum>x \<leftarrow> xs. F x (mset xs - {#x#}))"
    by (rule sum_list_nth[of "\<lambda>x. F x (mset xs - {#x#})" xs])
  also have "\<dots> = (\<Sum>x \<in># mset xs. F x (mset xs - {#x#}))"
    by (simp add: sum_mset_sum_list[symmetric])
  finally show ?thesis .
qed

lemma sum_mset_count:
  fixes h :: "'a \<Rightarrow> rat"
  shows "(\<Sum>x \<in># M. h x) = (\<Sum>x \<in> set_mset M. of_nat (count M x) * h x)"
proof (induction M)
  case empty
  then show ?case by simp
next
  case (add x M)
  show ?case
  proof (cases "x \<in># M")
    case True
    then have ins: "insert x (set_mset M) = set_mset M" by auto
    have "(\<Sum>y \<in> set_mset M. of_nat (count (add_mset x M) y) * h y)
        = (\<Sum>y \<in> set_mset M. of_nat (count M y) * h y + (if y = x then h y else 0))"
      by (rule sum.cong) (auto simp: algebra_simps)
    also have "\<dots> = (\<Sum>y \<in> set_mset M. of_nat (count M y) * h y) + h x"
      using True by (simp add: sum.distrib)
    finally show ?thesis using add by (simp add: ins)
  next
    case False
    have "(\<Sum>y \<in> set_mset M. of_nat (count (add_mset x M) y) * h y)
        = (\<Sum>y \<in> set_mset M. of_nat (count M y) * h y)"
      using False by (intro sum.cong) auto
    then show ?thesis using add False by (simp add: not_in_iff)
  qed
qed

lemma sum_mset_below_remove:
  fixes g :: "'a::linorder \<Rightarrow> rat"
  assumes "x \<in># M"
  shows "(\<Sum>y \<in># M - {#x#}. if y < x then g y else 0) = (\<Sum>y \<in># M. if y < x then g y else 0)"
proof -
  have "M = add_mset x (M - {#x#})" using assms by simp
  then have "(\<Sum>y \<in># M. if y < x then g y else 0)
      = (\<Sum>y \<in># add_mset x (M - {#x#}). if y < x then g y else 0)" by simp
  then show ?thesis by simp
qed

subsection \<open>The abstract deck of a multiset of cards\<close>

lemma mset_absM: "mset (absM M) = image_mset (\<lambda>x. int (count M x)) (mset_set (set_mset M))"
  by (simp add: absM_def)

lemma sum_list_absM: "sum_list (absM M) = int (size M)"
proof -
  have "sum_list (absM M) = sum_mset (mset (absM M))"
    by (simp add: sum_mset_sum_list)
  also have "\<dots> = (\<Sum>x \<in> set_mset M. int (count M x))"
    unfolding mset_absM by (simp add: sum_unfold_sum_mset)
  also have "\<dots> = int (size M)"
    by (simp add: size_multiset_overloaded_eq)
  finally show ?thesis .
qed

lemma canonical_absM: "canonical (absM M)"
proof -
  have "set (absM M) = set_mset (mset (absM M))" by simp
  also have "\<dots> = (\<lambda>x. int (count M x)) ` set_mset M"
    unfolding mset_absM by simp
  finally have "\<forall>c \<in> set (absM M). 1 \<le> c"
    by (auto simp: Suc_le_eq)
  moreover have "sorted (absM M)"
    by (simp add: absM_def)
  ultimately show ?thesis by (simp add: canonical_def)
qed

lemma filter_counts:
  assumes "finite T" "set_mset M \<subseteq> T"
  shows "filter_mset (\<lambda>c. 0 < c) (image_mset (\<lambda>x. int (count M x)) (mset_set T))
       = image_mset (\<lambda>x. int (count M x)) (mset_set (set_mset M))"
proof -
  have "{x \<in> T. 0 < int (count M x)} = set_mset M"
    using assms(2) by auto
  then show ?thesis
    using assms(1) by (simp add: filter_mset_image_mset)
qed

lemma absM_superset:
  assumes "finite T" "set_mset M \<subseteq> T"
  shows "absM M =
    sorted_list_of_multiset
      (filter_mset (\<lambda>c. 0 < c) (image_mset (\<lambda>x. int (count M x)) (mset_set T)))"
  unfolding filter_counts[OF assms] absM_def ..

lemma counts_remove_two:
  assumes "x \<in># M" "y \<in># M" "x \<noteq> y"
  shows "image_mset (\<lambda>z. int (count (M - {#x#} - {#y#}) z)) (mset_set (set_mset M))
       = add_mset (int (count M x) - 1) (add_mset (int (count M y) - 1)
           (image_mset (\<lambda>z. int (count M z)) (mset_set (set_mset M))
              - {#int (count M x), int (count M y)#}))"
proof -
  define R where "R = set_mset M - {x} - {y}"
  define M' where "M' = M - {#x#} - {#y#}"
  have S: "mset_set (set_mset M) = add_mset x (add_mset y (mset_set R))"
  proof -
    have "mset_set (set_mset M) = add_mset x (mset_set (set_mset M - {x}))"
      using assms(1) by (simp add: mset_set.remove)
    also have "mset_set (set_mset M - {x}) = add_mset y (mset_set R)"
      unfolding R_def using assms(2,3) by (simp add: mset_set.remove)
    finally show ?thesis .
  qed
  have rest: "image_mset (\<lambda>z. int (count M' z)) (mset_set R)
      = image_mset (\<lambda>z. int (count M z)) (mset_set R)"
    by (rule image_mset_cong) (auto simp: R_def M'_def)
  have cx: "int (count M' x) = int (count M x) - 1"
    using assms by (simp add: M'_def Suc_le_eq)
  have cy: "int (count M' y) = int (count M y) - 1"
    using assms by (simp add: M'_def Suc_le_eq)
  show ?thesis
    unfolding S M'_def[symmetric] by (simp add: rest cx cy)
qed

lemma absM_remove_two:
  assumes "x \<in># M" "y \<in># M" "x \<noteq> y"
  shows "absM (M - {#x#} - {#y#})
       = succ_state (mset (absM M)) (int (count M x)) (int (count M y))"
proof -
  have sub: "set_mset (M - {#x#} - {#y#}) \<subseteq> set_mset M"
    by (meson in_diffD subsetI)
  show ?thesis
    unfolding absM_superset[OF finite_set_mset sub] counts_remove_two[OF assms]
      succ_state_def mset_absM ..
qed

subsection \<open>One turn on the abstract deck of a multiset of cards\<close>

lemma remove_succ_state:
  assumes "i < length d" "j < length d" "i \<noteq> j"
  shows "remove d [i, j] = succ_state (mset d) (d ! i) (d ! j)"
proof -
  have "remove d [i, j] =
      sorted_list_of_multiset (mset (filter (\<lambda>c. 0 < c) (d[i := d ! i - 1, j := d ! j - 1])))"
    by (simp only: remove_pair_eq[OF assms] sorted_list_of_multiset_mset)
  then show ?thesis
    by (simp add: succ_state_def mset_update2[OF assms])
qed

lemma succ_state_commute: "succ_state N x y = succ_state N y x"
  by (simp add: succ_state_def add_mset_commute)

lemma turn_sum_psum:
  "turn_sum f d =
     psum (\<lambda>x y. of_int x * of_int y / (of_int (sum_list d) * of_int (sum_list d - 1))
                 * f (succ_state (mset d) x y)) d"
proof -
  let ?\<phi> = "\<lambda>x y. of_int x * of_int y / (of_int (sum_list d) * of_int (sum_list d - 1))
                 * f (succ_state (mset d) x y)"
  have "turn_sum f d = (\<Sum>(i, j) \<leftarrow> combinations2 (length d). ?\<phi> (d ! i) (d ! j))"
    unfolding turn_sum_def
    by (rule sum_list_map_cong) (auto simp: set_combinations2 remove_succ_state pair_weight_def)
  then show ?thesis using sum_combinations2[of ?\<phi> d] by simp
qed

lemma psum_counts:
  fixes \<phi> :: "int \<Rightarrow> int \<Rightarrow> rat"
  assumes sym: "\<And>x y. \<phi> x y = \<phi> y x"
    and d: "mset d = image_mset c (mset_set S)" and fin: "finite S"
  shows "2 * psum \<phi> d = (\<Sum>a \<in> S. \<Sum>b \<in> S. if a = b then 0 else \<phi> (c a) (c b))"
proof -
  have e: "(\<Sum>x \<in># mset d. g x) = (\<Sum>a \<in> S. g (c a))" for g :: "int \<Rightarrow> rat"
    unfolding d by (simp add: sum_unfold_sum_mset image_mset.compositionality o_def)
  have "2 * psum \<phi> d = (\<Sum>x \<in># mset d. \<Sum>y \<in># mset d. \<phi> x y) - (\<Sum>x \<in># mset d. \<phi> x x)"
    using psum_mset[of \<phi> d, OF sym] by simp
  also have "\<dots> = (\<Sum>a \<in> S. \<Sum>b \<in> S. \<phi> (c a) (c b)) - (\<Sum>a \<in> S. \<phi> (c a) (c a))"
    unfolding e ..
  also have "\<dots> = (\<Sum>a \<in> S. (\<Sum>b \<in> S. \<phi> (c a) (c b)) - \<phi> (c a) (c a))"
    by (simp add: sum_subtractf)
  also have "\<dots> = (\<Sum>a \<in> S. \<Sum>b \<in> S. if a = b then 0 else \<phi> (c a) (c b))"
  proof (rule sum.cong[OF refl])
    fix a assume a: "a \<in> S"
    have "(\<Sum>b \<in> S. if a = b then 0 else \<phi> (c a) (c b))
        = (\<Sum>b \<in> S - {a}. if a = b then 0 else \<phi> (c a) (c b))"
      using fin a by (simp add: sum.remove[of S a])
    also have "\<dots> = (\<Sum>b \<in> S - {a}. \<phi> (c a) (c b))"
      by (rule sum.cong) auto
    also have "\<dots> = (\<Sum>b \<in> S. \<phi> (c a) (c b)) - \<phi> (c a) (c a)"
      using fin a by (simp add: sum.remove[of S a])
    finally show "(\<Sum>b \<in> S. \<phi> (c a) (c b)) - \<phi> (c a) (c a)
        = (\<Sum>b \<in> S. if a = b then 0 else \<phi> (c a) (c b))" by simp
  qed
  finally show ?thesis .
qed

lemma sum_pairs_below:
  fixes G :: "'a::linorder \<Rightarrow> 'a \<Rightarrow> rat"
  shows "(\<Sum>x \<in># M. \<Sum>y \<in># M - {#x#}. if y < x then G x y else 0)
       = (\<Sum>x \<in> set_mset M. \<Sum>y \<in> set_mset M.
            if y < x then of_nat (count M x) * of_nat (count M y) * G x y else 0)"
proof -
  have "(\<Sum>x \<in># M. \<Sum>y \<in># M - {#x#}. if y < x then G x y else 0)
      = (\<Sum>x \<in># M. \<Sum>y \<in># M. if y < x then G x y else 0)"
    by (rule arg_cong[where f = sum_mset], rule image_mset_cong) (rule sum_mset_below_remove)
  also have "\<dots> = (\<Sum>x \<in> set_mset M. of_nat (count M x) *
        (\<Sum>y \<in> set_mset M. of_nat (count M y) * (if y < x then G x y else 0)))"
    unfolding sum_mset_count[of _ M] ..
  also have "\<dots> = (\<Sum>x \<in> set_mset M. \<Sum>y \<in> set_mset M.
            if y < x then of_nat (count M x) * of_nat (count M y) * G x y else 0)"
    unfolding sum_distrib_left
    by (intro sum.cong refl) (simp add: mult.assoc)
  finally show ?thesis .
qed

lemma sum_below_symmetric:
  fixes \<psi> :: "'a::linorder \<Rightarrow> 'a \<Rightarrow> rat"
  assumes "\<And>x y. \<psi> x y = \<psi> y x"
  shows "2 * (\<Sum>x \<in> S. \<Sum>y \<in> S. if y < x then \<psi> x y else 0)
       = (\<Sum>x \<in> S. \<Sum>y \<in> S. if x = y then 0 else \<psi> x y)"
proof -
  let ?A = "\<Sum>x \<in> S. \<Sum>y \<in> S. if y < x then \<psi> x y else 0"
  have "?A = (\<Sum>y \<in> S. \<Sum>x \<in> S. if y < x then \<psi> x y else 0)"
    by (rule sum.swap)
  also have "\<dots> = (\<Sum>x \<in> S. \<Sum>y \<in> S. if x < y then \<psi> x y else 0)"
    by (intro sum.cong refl) (simp add: assms)
  finally have "?A + ?A = (\<Sum>x \<in> S. \<Sum>y \<in> S.
      (if y < x then \<psi> x y else 0) + (if x < y then \<psi> x y else 0))"
    by (simp add: sum.distrib)
  also have "\<dots> = (\<Sum>x \<in> S. \<Sum>y \<in> S. if x = y then 0 else \<psi> x y)"
    by (intro sum.cong refl) auto
  finally show ?thesis by simp
qed

lemma turn_sum_absM:
  fixes f :: "AbDeck \<Rightarrow> rat"
  assumes "2 \<le> size M"
  shows "(\<Sum>x \<in># M. \<Sum>y \<in># M - {#x#}. if y < x then f (absM (M - {#x#} - {#y#})) else 0)
       = of_nat (size M) * of_nat (size M - 1) * turn_sum f (absM M)"
proof -
  define S where "S = set_mset M"
  define c where "c = (\<lambda>x. int (count M x))"
  define K :: rat where "K = of_int (sum_list (absM M)) * of_int (sum_list (absM M) - 1)"
  define \<phi> where "\<phi> = (\<lambda>x y. of_int x * of_int y / K * f (succ_state (mset (absM M)) x y))"
  define \<psi> where "\<psi> = (\<lambda>x y. of_nat (count M x) * of_nat (count M y)
      * f (absM (M - {#x#} - {#y#})))"
  have K: "K = of_nat (size M) * of_nat (size M - 1)"
    using assms by (simp add: K_def sum_list_absM)
  have K0: "K \<noteq> 0" using assms by (auto simp: K)
  have sym\<phi>: "\<And>x y. \<phi> x y = \<phi> y x"
    by (simp add: \<phi>_def succ_state_commute[of _ x y for x y] mult.commute)
  have sym\<psi>: "\<And>x y. \<psi> x y = \<psi> y x"
    by (simp add: \<psi>_def add_mset_commute mult.commute)
  have "2 * (\<Sum>x \<in># M. \<Sum>y \<in># M - {#x#}. if y < x then f (absM (M - {#x#} - {#y#})) else 0)
      = 2 * (\<Sum>x \<in> S. \<Sum>y \<in> S. if y < x then \<psi> x y else 0)"
    unfolding sum_pairs_below S_def \<psi>_def ..
  also have "\<dots> = (\<Sum>x \<in> S. \<Sum>y \<in> S. if x = y then 0 else \<psi> x y)"
    by (rule sum_below_symmetric[OF sym\<psi>])
  also have "\<dots> = (\<Sum>x \<in> S. \<Sum>y \<in> S. K * (if x = y then 0 else \<phi> (c x) (c y)))"
  proof (intro sum.cong refl)
    fix x y assume "x \<in> S" "y \<in> S"
    then have xy: "x \<in># M" "y \<in># M" by (simp_all add: S_def)
    show "(if x = y then 0 else \<psi> x y) = K * (if x = y then 0 else \<phi> (c x) (c y))"
    proof (cases "x = y")
      case True
      then show ?thesis by simp
    next
      case False
      have "absM (M - {#x#} - {#y#}) = succ_state (mset (absM M)) (c x) (c y)"
        unfolding c_def using xy False by (rule absM_remove_two)
      then show ?thesis using False K0 by (simp add: \<psi>_def \<phi>_def c_def)
    qed
  qed
  also have "\<dots> = K * (\<Sum>x \<in> S. \<Sum>y \<in> S. if x = y then 0 else \<phi> (c x) (c y))"
    by (simp add: sum_distrib_left)
  also have "(\<Sum>x \<in> S. \<Sum>y \<in> S. if x = y then 0 else \<phi> (c x) (c y)) = 2 * psum \<phi> (absM M)"
    by (rule psum_counts[symmetric, OF sym\<phi>]) (simp_all add: mset_absM c_def S_def)
  also have "psum \<phi> (absM M) = turn_sum f (absM M)"
    unfolding turn_sum_psum \<phi>_def K_def ..
  finally show ?thesis by (simp add: K)
qed

lemma wins_vsweep:
  "length D = 2 * m \<Longrightarrow> wins D = of_nat (fact (2 * m)) * vsweep m (absM (mset D))"
proof (induction m arbitrary: D)
  case 0
  then show ?case by (simp add: wins_def permutations.simps)
next
  case (Suc m)
  define M where "M = mset D"
  define h where "h = (\<lambda>d. of_nat (fact (2 * m)) * vsweep m d)"
  have len: "length D = 2 * m + 2" using Suc.prems by simp
  have sz: "size M = 2 * m + 2" using len by (simp add: M_def)
  have inner: "(\<Sum>j \<leftarrow> [0..<length D - 1].
        if D ! i > (take i D @ drop (Suc i) D) ! j
        then wins (take j (take i D @ drop (Suc i) D) @ drop (Suc j) (take i D @ drop (Suc i) D))
        else 0)
      = (\<Sum>y \<in># mset (take i D @ drop (Suc i) D).
          if y < D ! i then h (absM (mset (take i D @ drop (Suc i) D) - {#y#})) else 0)"
    if i: "i \<in> set [0..<length D]" for i
  proof -
    define ys where "ys = take i D @ drop (Suc i) D"
    have lys: "length ys = length D - 1" using i by (auto simp: ys_def)
    have "(\<Sum>j \<leftarrow> [0..<length ys].
          if D ! i > ys ! j then wins (take j ys @ drop (Suc j) ys) else 0)
        = (\<Sum>j \<leftarrow> [0..<length ys].
          if ys ! j < D ! i then h (absM (mset (take j ys @ drop (Suc j) ys))) else 0)"
    proof (rule sum_list_map_cong)
      fix j assume "j \<in> set [0..<length ys]"
      then have "length (take j ys @ drop (Suc j) ys) = 2 * m"
        using lys len by auto
      then show "(if D ! i > ys ! j then wins (take j ys @ drop (Suc j) ys) else 0)
          = (if ys ! j < D ! i then h (absM (mset (take j ys @ drop (Suc j) ys))) else 0)"
        using Suc.IH by (simp add: h_def)
    qed
    also have "\<dots> = (\<Sum>y \<in># mset ys. if y < D ! i then h (absM (mset ys - {#y#})) else 0)"
      by (rule sum_del_nth[of "\<lambda>y N. if y < D ! i then h (absM N) else 0" ys])
    finally show ?thesis unfolding ys_def[symmetric] lys .
  qed
  have "wins D = (\<Sum>i \<leftarrow> [0..<length D]. \<Sum>j \<leftarrow> [0..<length D - 1].
        if D ! i > (take i D @ drop (Suc i) D) ! j
        then wins (take j (take i D @ drop (Suc i) D) @ drop (Suc j) (take i D @ drop (Suc i) D))
        else 0)"
    using len by (intro wins_rec) simp
  also have "\<dots> = (\<Sum>i \<leftarrow> [0..<length D]. \<Sum>y \<in># mset (take i D @ drop (Suc i) D).
          if y < D ! i then h (absM (mset (take i D @ drop (Suc i) D) - {#y#})) else 0)"
    by (rule sum_list_map_cong) (rule inner)
  also have "\<dots> = (\<Sum>x \<in># M. \<Sum>y \<in># M - {#x#}.
      if y < x then h (absM (M - {#x#} - {#y#})) else 0)"
    unfolding M_def
    by (rule sum_del_nth[of "\<lambda>x N. \<Sum>y \<in># N. if y < x then h (absM (N - {#y#})) else 0" D])
  also have "\<dots> = of_nat (size M) * of_nat (size M - 1) * turn_sum h (absM M)"
    using sz by (intro turn_sum_absM) simp
  also have "turn_sum h (absM M) = of_nat (fact (2 * m)) * turn_sum (vsweep m) (absM M)"
    unfolding turn_sum_def h_def
    by (simp add: sum_list_const_mult[symmetric] case_prod_unfold mult.left_commute)
  finally have w: "wins D = of_nat (size M) * of_nat (size M - 1)
      * (of_nat (fact (2 * m)) * turn_sum (vsweep m) (absM M))" .
  have s1: "2 * m + 2 - 1 = 2 * m + 1" by simp
  have fct: "(of_nat (fact (2 * Suc m)) :: rat)
      = of_nat (2 * m + 2) * of_nat (2 * m + 1) * of_nat (fact (2 * m))"
    by (simp add: algebra_simps)
  show ?case
    unfolding w sz s1 fct vsweep.simps M_def[symmetric] by (simp only: mult.assoc)
qed

subsection \<open>The oracle and the abstract computation\<close>

lemma p_sweeps_p_sweep:
  assumes "even (length D)"
  shows "p_sweeps (permutations D) = p_sweep (absM (mset D))"
proof -
  obtain m where m: "length D = 2 * m" using assms by (auto elim: evenE)
  have "wins D / of_nat (fact (length D)) = vsweep m (absM (mset D))"
    unfolding wins_vsweep[OF m] m by simp
  moreover have "nat (sum_list (absM (mset D)) div 2) = m"
    by (simp add: sum_list_absM m)
  ultimately show ?thesis
    unfolding p_sweeps_wins[OF assms] p_sweep_vsweep[OF canonical_absM] by simp
qed

lemma count_make_deck:
  "count (mset (concat (map (\<lambda>r. replicate s (int r + 1)) [0..<n]))) x
     = (if 1 \<le> x \<and> x \<le> int n then s else 0)"
  by (induction n) auto

lemma sorted_list_of_replicate_mset:
  "sorted_list_of_multiset (replicate_mset n s) = replicate n s"
proof -
  have "sorted_list_of_multiset (mset (replicate n s)) = replicate n s"
    by (simp only: sorted_list_of_multiset_mset sorted_sort_id sorted_replicate)
  then show ?thesis by simp
qed

lemma absM_make_deck:
  assumes "1 \<le> ranks" "1 \<le> suits"
  shows "absM (mset (make_deck ranks suits)) = make_abdeck ranks suits"
proof -
  define M where "M = mset (make_deck ranks suits)"
  have cnt: "count M x = (if 1 \<le> x \<and> x \<le> ranks then nat suits else 0)" for x
    unfolding M_def make_deck_def count_make_deck using assms by auto
  have S: "set_mset M = {1..ranks}"
    using assms by (auto simp: set_mset_def cnt)
  have "image_mset (\<lambda>x. int (count M x)) (mset_set {1..ranks})
      = image_mset (\<lambda>x. suits) (mset_set {1..ranks})"
    using assms by (intro image_mset_cong) (simp add: cnt)
  also have "\<dots> = replicate_mset (nat ranks) suits"
    by (simp add: image_mset_const_eq)
  finally have "absM M = replicate (nat ranks) suits"
    unfolding absM_def S by (simp only: sorted_list_of_replicate_mset)
  then show ?thesis
    unfolding M_def make_abdeck_def .
qed

lemma p_sweep_no_turn:
  assumes "sum_list d \<le> 1"
  shows "p_sweep d = Inr 1"
proof -
  have "nat (sum_list d div 2) = 0" using assms by simp
  then show ?thesis by (simp add: p_sweep_def total_def)
qed

lemma oracle_degenerate:
  assumes "\<not> (1 \<le> ranks \<and> 1 \<le> suits)"
  shows "p_sweeps (permutations (make_deck ranks suits)) = Inr 1"
    and "p_sweep (make_abdeck ranks suits) = Inr 1"
proof -
  have "make_deck ranks suits = []"
    using assms by (auto simp: make_deck_def)
  then show "p_sweeps (permutations (make_deck ranks suits)) = Inr 1"
    by (simp add: permutations.simps p_sweeps_def)
  have "sum_list (make_abdeck ranks suits) = int (nat ranks) * suits"
    by (simp add: make_abdeck_def sum_list_replicate)
  also have "\<dots> \<le> 0"
    using assms by (cases "1 \<le> ranks") (auto simp: mult_le_0_iff)
  finally show "p_sweep (make_abdeck ranks suits) = Inr 1"
    by (intro p_sweep_no_turn) simp
qed

text \<open>
  Counterexample for C1.  A deck of 3 ranks and 1 suit has 3 cards, at most 10.  The oracle
  raises IndexError, on the ordering \<open>(2, 1, 3)\<close>, whose first pair A wins and whose last card
  has no partner, while the abstract computation returns 1/2.
\<close>

theorem oracle_odd_counterexample:
  "length (make_deck 3 1) = 3 \<and> sweep [2, 1, 3] = Inl IndexError
   \<and> p_sweeps (permutations (make_deck 3 1)) = Inl IndexError
   \<and> p_sweep (make_abdeck 3 1) = Inr (1 / 2)"
  by code_simp

text \<open>
  Claim C1, amended.  For every deck configuration with an even number of cards, at most 10,
  the oracle \<open>p_sweeps (permutations (make_deck ranks suits))\<close> and the abstract computation
  \<open>p_sweep (make_abdeck ranks suits)\<close> both return, and return the same rational number.
\<close>

theorem oracle_equivalence:
  assumes "even (ranks * suits)" "ranks * suits \<le> 10"
  shows "\<exists>p. p_sweeps (permutations (make_deck ranks suits)) = Inr p
           \<and> p_sweep (make_abdeck ranks suits) = Inr p"
proof (cases "1 \<le> ranks \<and> 1 \<le> suits")
  case True
  have "length (make_deck ranks suits) = nat ranks * nat suits"
    by (simp add: make_deck_def length_concat o_def sum_list_triv)
  also have "\<dots> = nat (ranks * suits)"
    using True by (simp add: nat_mult_distrib)
  finally have "even (length (make_deck ranks suits))"
    using assms(1) True by (simp add: even_nat_iff)
  then have "p_sweeps (permutations (make_deck ranks suits)) = p_sweep (make_abdeck ranks suits)"
    using True by (simp add: p_sweeps_p_sweep absM_make_deck)
  moreover obtain p where "p_sweep (make_abdeck ranks suits) = Inr p"
    using p_sweep_vsweep[of "make_abdeck ranks suits"] True
    by (auto simp: make_abdeck_def canonical_def)
  ultimately show ?thesis by simp
next
  case False
  then show ?thesis using oracle_degenerate by blast
qed

text \<open>Witness for the amended C1 at 2 ranks and 2 suits, where both return 1/6.\<close>

theorem oracle_equivalence_witness:
  "p_sweeps (permutations (make_deck 2 2)) = Inr (1 / 6) \<and> p_sweep (make_abdeck 2 2) = Inr (1 / 6)"
proof -
  have a: "p_sweep (make_abdeck 2 2) = Inr (1 / 6)" by code_simp
  obtain p where p: "p_sweeps (permutations (make_deck 2 2)) = Inr p"
      "p_sweep (make_abdeck 2 2) = Inr p"
    using oracle_equivalence[of 2 2] by auto
  from p(2) a have "p = 1 / 6" by simp
  with p show ?thesis by simp
qed

subsection \<open>Configuration errors\<close>

text \<open>
  Counterexample for C7.  \<open>make_abdeck\<close> raises nothing: with no rank it returns the empty
  state, and with a non-positive number of suits a state of non-positive counts.
\<close>

theorem make_abdeck_no_error_counterexample:
  "make_abdeck 0 4 = [] \<and> make_abdeck 3 0 = [0, 0, 0] \<and> make_abdeck 2 (- 1) = [- 1, - 1]"
  by (simp add: make_abdeck_def numeral_3_eq_3 numeral_2_eq_2)

text \<open>
  Claim C7, amended.  \<open>make_abdeck ranks suits\<close> always returns a state, of \<open>ranks\<close> entries
  (none when \<open>ranks \<le> 0\<close>) all equal to \<open>suits\<close>; it is canonical when both arguments are
  positive, it is empty when \<open>ranks \<le> 0\<close>, and it is not canonical when \<open>ranks\<close> is positive and
  \<open>suits\<close> is not.
\<close>

theorem make_abdeck_total:
  "length (make_abdeck ranks suits) = nat ranks
   \<and> (\<forall>c \<in> set (make_abdeck ranks suits). c = suits)
   \<and> (0 < ranks \<and> 0 < suits \<longrightarrow>
        canonical (make_abdeck ranks suits) \<and> int (length (make_abdeck ranks suits)) = ranks)
   \<and> (ranks \<le> 0 \<longrightarrow> make_abdeck ranks suits = [])
   \<and> (0 < ranks \<and> suits \<le> 0 \<longrightarrow> \<not> canonical (make_abdeck ranks suits))"
  by (auto simp: make_abdeck_def canonical_def)

text \<open>Witness for the amended C7.\<close>

theorem make_abdeck_total_witness:
  "make_abdeck 3 2 = [2, 2, 2] \<and> canonical (make_abdeck 3 2) \<and> make_abdeck (- 1) 2 = []
   \<and> \<not> canonical (make_abdeck 2 0)"
  using make_abdeck_total[of 3 2] make_abdeck_total[of "- 1" 2] make_abdeck_total[of 2 0]
  by (simp add: make_abdeck_def numeral_3_eq_3)

text \<open>
  Counterexample for C8.  The state \<open>(1, 1, 1)\<close> has 3 cards; \<open>p_sweep\<close> plays
  \<open>3 // 2 = 1\<close> turn and returns 1/2, and on the one-card state \<open>(1)\<close> it plays no turn and
  returns 1.
\<close>

theorem p_sweep_odd_counterexample:
  "sum_list [1, 1, 1 :: int] = 3 \<and> p_sweep [1, 1, 1] = Inr (1 / 2) \<and> p_sweep [1] = Inr 1"
  by (simp add: p_sweep_def play_turn_def combinations2_def remove_def total_def)

text \<open>
  Claim C8, amended.  \<open>p_sweep\<close> does not look at the parity of the number of cards: for every
  canonical state it plays \<open>sum deck div 2\<close> turns, none of which fails, and returns the total
  mass of the resulting distribution.
\<close>

theorem p_sweep_floor_turns:
  assumes "canonical deck"
  shows "\<exists>P. turns (nat (sum_list deck div 2)) [(deck, 1)] = Inr P \<and> p_sweep deck = Inr (total P)"
proof -
  obtain P where "turns (nat (sum_list deck div 2)) [(deck, 1)] = Inr P"
    using turns_canonical[of "[(deck, 1)]" "nat (sum_list deck div 2)"] assms by auto
  then show ?thesis by (simp add: p_sweep_def)
qed

text \<open>Witness for the amended C8 at the state \<open>(1, 1, 1)\<close>, of 3 cards.\<close>

theorem p_sweep_floor_turns_witness:
  "\<exists>P. turns (nat (sum_list [1, 1, 1] div 2)) [([1, 1, 1], 1)] = Inr P
       \<and> p_sweep [1, 1, 1] = Inr (total P)"
  by (rule p_sweep_floor_turns) (simp add: canonical_def)

subsection \<open>Strict loss of mass\<close>

text \<open>
  Counterexample for C9.  The only key of the distribution \<open>{(2): 1}\<close> is a single-rank deck;
  \<open>play_turn\<close> returns the empty distribution, so the total mass falls from 1 to 0: the
  strict decrease holds there too.
\<close>

theorem single_rank_counterexample:
  "play_turn [([2], 1)] = Inr [] \<and> total [] = 0 \<and> total [([2], 1)] = 1"
  by (simp add: play_turn_def combinations2_def total_def)

text \<open>
  Claim C9, amended.  For every distribution with non-negative masses and a positive total
  mass, the total mass of \<open>play_turn P\<close> is strictly less than that of \<open>P\<close>; distributions
  whose keys are single-rank decks are no exception.
\<close>

theorem strict_mass_loss:
  assumes "\<forall>(d, p) \<in> set P. canonical d \<and> 0 \<le> p" "0 < total P"
  shows "\<exists>P'. play_turn P = Inr P' \<and> total P' < total P"
proof -
  have "\<forall>d \<in> fst ` set P. canonical d" using assms(1) by force
  then have "play_turn P = Inr (decks_pure P [])" by (rule canonical_play_turn)
  moreover have "2 * total (decks_pure P []) \<le> total P"
    using assms(1) by (rule total_play_turn_half)
  then have "total (decks_pure P []) < total P"
    using assms(2) by linarith
  ultimately show ?thesis by blast
qed

text \<open>Witness for the amended C9 at the distributions \<open>{(1, 1, 2): 1}\<close> and \<open>{(2): 1}\<close>.\<close>

theorem strict_mass_loss_witness:
  "(\<exists>P'. play_turn [([1, 1, 2], 1)] = Inr P' \<and> total P' < total [([1, 1, 2], 1)])
   \<and> (\<exists>P'. play_turn [([2], 1)] = Inr P' \<and> total P' < total [([2], 1)])"
  using strict_mass_loss[of "[([1, 1, 2], 1)]"] strict_mass_loss[of "[([2], 1)]"]
  by (auto simp: canonical_def total_def)

end
